theory Spec2Isabelle
  imports Complex_Main "HOL-Library.AList"
begin

section \<open>Python values and errors\<close>

text \<open>
  The exceptions the two scripts can raise from their own statements. A function that can
  raise returns \<open>error + 'a\<close>, with \<open>Inl\<close> for the exception. The alignment library
  (pysam), pandas, gzip and the file system are outside the model: the reads of a pileup
  column, the rows of the detectability table and the lines of a file are inputs.
\<close>

datatype error = ValueError | IndexError | ZeroDivisionError | UnboundLocalError

text \<open>A loop whose body can raise: the first exception ends it.\<close>

fun fold_err :: "('s \<Rightarrow> 'a \<Rightarrow> error + 's) \<Rightarrow> 's \<Rightarrow> 'a list \<Rightarrow> error + 's" where
  "fold_err f s [] = Inr s"
| "fold_err f s (x # xs) = (case f s x of Inl e \<Rightarrow> Inl e | Inr s' \<Rightarrow> fold_err f s' xs)"

text \<open>A loop that appends what its body returns for each element.\<close>

fun map_err :: "('a \<Rightarrow> error + 'b) \<Rightarrow> 'a list \<Rightarrow> error + 'b list" where
  "map_err f [] = Inr []"
| "map_err f (x # xs) =
     (case f x of
        Inl e \<Rightarrow> Inl e
      | Inr y \<Rightarrow> (case map_err f xs of Inl e \<Rightarrow> Inl e | Inr ys \<Rightarrow> Inr (y # ys)))"

subsection \<open>Strings\<close>

text \<open>
  Strings are byte strings; whitespace and digits are the ASCII ones (Python's
  \<^verbatim>\<open>str.strip\<close>, \<^verbatim>\<open>str.split\<close> and \<^verbatim>\<open>int\<close> also accept the Unicode ones, which a
  byte string does not have).
\<close>

definition startswith :: "string \<Rightarrow> string \<Rightarrow> bool" where
  "startswith s p = (take (length p) s = p)"

definition isspace :: "char \<Rightarrow> bool" where
  "isspace c = (c \<in> set [CHR 0x09, CHR 0x0A, CHR 0x0B, CHR 0x0C, CHR 0x0D,
                            CHR 0x1C, CHR 0x1D, CHR 0x1E, CHR 0x1F, CHR 0x20])"

definition strip :: "string \<Rightarrow> string" where
  "strip s = rev (dropWhile isspace (rev (dropWhile isspace s)))"

text \<open>\<^verbatim>\<open>s.split(sep)\<close> for a separator of one character: never an empty list.\<close>

fun split_on :: "char \<Rightarrow> string \<Rightarrow> string list" where
  "split_on sep [] = [[]]"
| "split_on sep (c # cs) =
     (if c = sep then [] # split_on sep cs
      else (case split_on sep cs of [] \<Rightarrow> [[c]] | w # ws \<Rightarrow> (c # w) # ws))"

text \<open>\<^verbatim>\<open>s.split()\<close>: the words between runs of whitespace.\<close>

function split_ws :: "string \<Rightarrow> string list" where
  "split_ws s =
     (let t = dropWhile isspace s in
      if t = [] then []
      else takeWhile (\<lambda>c. \<not> isspace c) t # split_ws (dropWhile (\<lambda>c. \<not> isspace c) t))"
  by pat_completeness auto
termination
proof (relation "measure length")
  show "wf (measure length)" by simp
next
  fix s t :: string
  assume t: "t = dropWhile isspace s" and ne: "t \<noteq> []"
  from ne obtain c cs where c: "t = c # cs" by (cases t) auto
  have "\<not> isspace c" using t c by (metis dropWhile_eq_Cons_conv)
  then have "length (dropWhile (\<lambda>c. \<not> isspace c) t) \<le> length cs"
    by (simp add: c length_dropWhile_le)
  moreover have "length t \<le> length s" by (simp add: t length_dropWhile_le)
  ultimately show "(dropWhile (\<lambda>c. \<not> isspace c) t, s) \<in> measure length"
    by (simp add: c)
qed

text \<open>\<^verbatim>\<open>xs.index(x)\<close>: \<open>None\<close> where Python raises ValueError.\<close>

fun index_of :: "'a \<Rightarrow> 'a list \<Rightarrow> nat option" where
  "index_of x [] = None"
| "index_of x (y # ys) = (if y = x then Some 0 else map_option Suc (index_of x ys))"

text \<open>\<^verbatim>\<open>sep.join(xs)\<close>.\<close>

fun join :: "string \<Rightarrow> string list \<Rightarrow> string" where
  "join sep [] = []"
| "join sep [x] = x"
| "join sep (x # y # ys) = x @ sep @ join sep (y # ys)"

text \<open>
  \<^verbatim>\<open>int(s)\<close> in base 10: whitespace around the number is dropped, one sign is allowed,
  and the digits may be grouped by single underscores.
\<close>

definition isdigit :: "char \<Rightarrow> bool" where
  "isdigit c = (48 \<le> (of_char c :: nat) \<and> (of_char c :: nat) \<le> 57)"

fun digits_ok :: "string \<Rightarrow> bool" where
  "digits_ok [] = False"
| "digits_ok [c] = isdigit c"
| "digits_ok (c # d # cs) =
     (isdigit c \<and> (if d = CHR ''_'' then digits_ok cs else digits_ok (d # cs)))"

definition digits_value :: "string \<Rightarrow> nat" where
  "digits_value s =
     foldl (\<lambda>acc c. if c = CHR ''_'' then acc else 10 * acc + (of_char c - 48)) 0 s"

definition py_int :: "string \<Rightarrow> error + int" where
  "py_int s =
     (case strip s of
        [] \<Rightarrow> Inl ValueError
      | c # cs \<Rightarrow>
          (let body = (if c = CHR ''-'' \<or> c = CHR ''+'' then cs else c # cs) in
           if digits_ok body
           then Inr (if c = CHR ''-'' then - int (digits_value body) else int (digits_value body))
           else Inl ValueError))"

text \<open>
  The fields both scripts read from a data line:
  \<^verbatim>\<open>(columns[0], int(columns[1]), columns[3], columns[4])\<close>, evaluated left to right.
\<close>

type_synonym vcf_id = "string \<times> int \<times> string \<times> string"

definition vcf_id_of :: "string list \<Rightarrow> error + vcf_id" where
  "vcf_id_of columns =
     (if length columns < 2 then Inl IndexError
      else
        (case py_int (columns ! 1) of
           Inl e \<Rightarrow> Inl e
         | Inr pos \<Rightarrow>
             if length columns < 5 then Inl IndexError
             else Inr (columns ! 0, pos, columns ! 3, columns ! 4)))"

section \<open>Work chunking (LOD\_edit.py, chunkify)\<close>

text \<open>
  Python's \<^verbatim>\<open>range(i, n, step)\<close> for a positive step, as the list of its values, and
  the slice \<^verbatim>\<open>lst[i:j]\<close> for indices that are not negative.
\<close>

function py_range :: "nat \<Rightarrow> nat \<Rightarrow> nat \<Rightarrow> nat list" where
  "py_range i n step = (if 0 < step \<and> i < n then i # py_range (i + step) n step else [])"
  by pat_completeness auto
termination
  by (relation "measure (\<lambda>(i, n, step). n - i)") auto

definition py_slice :: "'a list \<Rightarrow> nat \<Rightarrow> nat \<Rightarrow> 'a list" where
  "py_slice lst i j = take (j - i) (drop i lst)"

text \<open>
  \<^verbatim>\<open>
  def chunkify(lst, num_chunks):
      num_chunks = min(num_chunks, len(lst))
      if num_chunks <= 0:
          return [lst]
      chunk_size = max(1, len(lst) // num_chunks)
      return [lst[i : i + chunk_size] for i in range(0, len(lst), chunk_size)]
  \<close>
\<close>

definition chunkify :: "'a list \<Rightarrow> int \<Rightarrow> 'a list list" where
  "chunkify lst num_chunks =
     (let num_chunks = min num_chunks (int (length lst)) in
      if num_chunks \<le> 0 then [lst]
      else
        (let chunk_size = max 1 (length lst div nat num_chunks) in
         map (\<lambda>i. py_slice lst i (i + chunk_size)) (py_range 0 (length lst) chunk_size)))"

section \<open>The merge pass (merge\_vcf\_lod.py)\<close>

text \<open>
  A row of the detectability table as pandas hands it over. The score is kept as the text
  that the f-string writes for it.
\<close>

record tsv_row =
  tsv_Chrom :: string
  tsv_Pos :: int
  tsv_Ref :: string
  tsv_Alt :: string
  tsv_Detectability_Score :: string
  tsv_Detectability_Condition :: string

text \<open>\<^verbatim>\<open>detectability_data_dict\<close>: condition and score by identity tuple; a later row wins.\<close>

type_synonym det_dict = "vcf_id \<rightharpoonup> (string \<times> string)"

definition add_row :: "det_dict \<Rightarrow> tsv_row \<Rightarrow> det_dict" where
  "add_row d row =
     d((tsv_Chrom row, tsv_Pos row, tsv_Ref row, tsv_Alt row) \<mapsto>
         (if tsv_Detectability_Condition row = ''Detectable'' then ''Yes'' else ''No'',
          tsv_Detectability_Score row))"

definition detectability_data_dict :: "tsv_row list \<Rightarrow> det_dict" where
  "detectability_data_dict rows = foldl add_row Map.empty rows"

definition DET_line :: string where
  "DET_line = ''##INFO=<ID=DET,Number=1,Type=String,Description='' @ [CHR 0x22] @
     ''Detectability status (Yes if detectable, No if non-detectable)'' @ [CHR 0x22] @
     ''>\<newline>''"

definition DETS_line :: string where
  "DETS_line = ''##INFO=<ID=DETS,Number=1,Type=Float,Description='' @ [CHR 0x22] @
     ''Detectability Score'' @ [CHR 0x22] @ ''>\<newline>''"

record merge_state =
  info_added :: bool
  info_idx :: "nat option"
  updated_vcf_lines :: "string list"

definition append_line :: "string \<Rightarrow> merge_state \<Rightarrow> merge_state" where
  "append_line l s = s\<lparr>updated_vcf_lines := updated_vcf_lines s @ [l]\<rparr>"

text \<open>
  Lines 41 to 51, a data line: the line that is appended. \<open>info_idx\<close> is \<open>None\<close> as long
  as no line starting with \<^verbatim>\<open>#C\<close> has assigned it.
\<close>

definition merge_data_line :: "det_dict \<Rightarrow> nat option \<Rightarrow> string \<Rightarrow> error + string" where
  "merge_data_line d idx line =
     (let columns = split_on (CHR 0x09) (strip line) in
      case vcf_id_of columns of
        Inl e \<Rightarrow> Inl e
      | Inr vcf_id \<Rightarrow>
          (case d vcf_id of
             None \<Rightarrow> Inr line
           | Some (detectability_status, detectability_score) \<Rightarrow>
               (case idx of
                  None \<Rightarrow> Inl UnboundLocalError
                | Some i \<Rightarrow>
                    if i < length columns
                    then Inr (join [CHR 0x09]
                               (columns[i := columns ! i @ '';DET='' @ detectability_status @
                                              '';DETS='' @ detectability_score])
                              @ ''\<newline>'')
                    else Inl IndexError)))"

text \<open>Lines 27 to 29: the column header sets \<open>info_idx\<close>.\<close>

definition read_header :: "merge_state \<Rightarrow> string \<Rightarrow> error + merge_state" where
  "read_header s line =
     (if startswith line ''#C''
      then (case index_of ''INFO'' (split_ws (strip line)) of
              None \<Rightarrow> Inl ValueError
            | Some i \<Rightarrow> Inr (s\<lparr>info_idx := Some i\<rparr>))
      else Inr s)"

text \<open>Lines 27 to 51: the body of the loop over the lines of the VCF.\<close>

definition merge_line :: "det_dict \<Rightarrow> merge_state \<Rightarrow> string \<Rightarrow> error + merge_state" where
  "merge_line d s0 line =
     (case read_header s0 line of
        Inl e \<Rightarrow> Inl e
      | Inr s \<Rightarrow>
          if startswith line ''##INFO'' then
            Inr (if info_added s then append_line line s
                 else (append_line DETS_line (append_line DET_line (append_line line s)))
                        \<lparr>info_added := True\<rparr>)
          else if startswith line ''##'' \<or> startswith line ''#'' then Inr (append_line line s)
          else
            (case merge_data_line d (info_idx s) line of
               Inl e \<Rightarrow> Inl e
             | Inr l \<Rightarrow> Inr (append_line l s)))"

definition merge_init :: merge_state where
  "merge_init = \<lparr>info_added = False, info_idx = None, updated_vcf_lines = []\<rparr>"

text \<open>
  The function, from the rows of the table and the lines of the VCF to the lines written.
\<close>

definition merge_detectability_into_vcf :: "tsv_row list \<Rightarrow> string list \<Rightarrow> error + string list" where
  "merge_detectability_into_vcf rows vcf_file =
     (case fold_err (merge_line (detectability_data_dict rows)) merge_init vcf_file of
        Inl e \<Rightarrow> Inl e
      | Inr s \<Rightarrow> Inr (updated_vcf_lines s))"

text \<open>
  How a line of the input reaches the output when nothing is inserted: a header line as it
  is, a data line as lines 41 to 51 write it.
\<close>

abbreviation carried :: "det_dict \<Rightarrow> string \<Rightarrow> string \<Rightarrow> bool" where
  "carried d l w \<equiv>
     (if startswith l ''#'' then w = l else (\<exists>idx. merge_data_line d idx l = Inr w))"

section \<open>The scoring pass (LOD\_edit.py)\<close>

subsection \<open>Counting the reads of one variant (lines 32 to 73)\<close>

text \<open>
  What the loop reads of a \<^verbatim>\<open>PileupRead\<close>. \<open>query_position\<close> is read only for a read that
  is neither a deletion nor a reference skip, where pysam gives a number.
\<close>

record pileup_read =
  is_refskip :: bool
  is_del :: bool
  query_position :: nat
  query_sequence :: string
  indel :: int

text \<open>
  \<open>ref_count\<close> and \<open>allele_counts\<close>. The dictionary keeps its keys in the order of their
  first insertion, as \<open>AList.update\<close> does.
\<close>

type_synonym counts = "int \<times> (string \<times> int) list"

definition init_allele_counts :: "string list \<Rightarrow> (string \<times> int) list" where
  "init_allele_counts alt_alleles = foldl (\<lambda>d allele. AList.update allele 0 d) [] alt_alleles"

text \<open>
  \<^verbatim>\<open>allele_counts[k] += 1\<close>. The key is in the dictionary wherever the loop does this:
  it is an element of \<open>alt_alleles\<close>, or the loop has just tested it.
\<close>

definition incr :: "string \<Rightarrow> (string \<times> int) list \<Rightarrow> (string \<times> int) list" where
  "incr k d = AList.map_entry k (\<lambda>v. v + 1) d"

text \<open>Lines 69 to 73: the body of the loop over the alternate alleles of an indel.\<close>

definition indel_step :: "string \<Rightarrow> int \<Rightarrow> counts \<Rightarrow> string \<Rightarrow> counts" where
  "indel_step ref indel_len st alt_allele =
     (case st of (ref_count, allele_counts) \<Rightarrow>
        if indel_len = int (length alt_allele) - int (length ref)
        then (ref_count, incr alt_allele allele_counts)
        else if indel_len = 0 then (ref_count + 1, allele_counts)
        else st)"

text \<open>
  Lines 38 to 73: the body of the loop over the reads. \<^verbatim>\<open>max\<close> of an empty list raises
  ValueError, and an index past the end of the read's sequence IndexError.
\<close>

definition classify_read :: "string \<Rightarrow> string list \<Rightarrow> counts \<Rightarrow> pileup_read \<Rightarrow> error + counts" where
  "classify_read ref alt_alleles st pileup_read =
     (case st of (ref_count, allele_counts) \<Rightarrow>
        if is_refskip pileup_read then Inr st
        else if alt_alleles = [] then Inl ValueError
        else
          (let ref_len = length ref; alt_len = Max (set (map length alt_alleles)) in
           if ref_len = alt_len then
             (if ref_len = 1 then
                (if is_del pileup_read then Inr st
                 else if query_position pileup_read < length (query_sequence pileup_read) then
                   (let base = [query_sequence pileup_read ! query_position pileup_read] in
                    if base = ref then Inr (ref_count + 1, allele_counts)
                    else if base \<in> set (map fst allele_counts)
                    then Inr (ref_count, incr base allele_counts)
                    else Inr st)
                 else Inl IndexError)
              else
                (if is_del pileup_read then Inr st
                 else
                   (let start = query_position pileup_read;
                        read_seq = py_slice (query_sequence pileup_read) start (start + ref_len) in
                    if read_seq = ref then Inr (ref_count + 1, allele_counts)
                    else if read_seq \<in> set (map fst allele_counts)
                    then Inr (ref_count, incr read_seq allele_counts)
                    else Inr st)))
           else Inr (foldl (indel_step ref (indel pileup_read)) st alt_alleles)))"

text \<open>Lines 32 to 73: the counts of one variant, from the columns of its pileup.\<close>

definition count_reads :: "string \<Rightarrow> string list \<Rightarrow> pileup_read list list \<Rightarrow> error + counts" where
  "count_reads ref alt_alleles pileup =
     fold_err (classify_read ref alt_alleles) (0, init_allele_counts alt_alleles) (concat pileup)"

text \<open>
  The rule for indels in the words of the specification (section 4.1): every alternate
  whose length difference is the read's indel length is matched, and independently of
  that a read with indel length 0 matches the reference, once.
\<close>

definition indel_rule_spec :: "string \<Rightarrow> string list \<Rightarrow> counts \<Rightarrow> int \<Rightarrow> counts" where
  "indel_rule_spec ref alt_alleles st indel_len =
     (case st of (ref_count, allele_counts) \<Rightarrow>
        (if indel_len = 0 then ref_count + 1 else ref_count,
         foldl (\<lambda>d a. if indel_len = int (length a) - int (length ref) then incr a d else d)
           allele_counts alt_alleles))"

text \<open>
  A read is informative when it is not a reference skip and it matches the reference or
  an alternate: the reads the specification (section 3) counts.
\<close>

definition informative_indel :: "string \<Rightarrow> string list \<Rightarrow> pileup_read \<Rightarrow> bool" where
  "informative_indel ref alt_alleles r =
     (\<not> is_refskip r \<and>
      (indel r = 0 \<or> indel r \<in> set (map (\<lambda>a. int (length a) - int (length ref)) alt_alleles)))"

subsection \<open>Scoring (lines 76 to 86)\<close>

text \<open>
  Floating-point numbers are read as the reals they stand for, and \<^verbatim>\<open>float("-inf")\<close> as
  a value of its own. A float division by zero raises ZeroDivisionError. The rounding of
  double arithmetic is not modelled: what is stated of these values below is which branch
  is taken (a zero or a positive ratio, the threshold of the report), never how two
  computed values compare.
\<close>

datatype lod = NegInf | Fin real

type_synonym result = "string \<times> int \<times> string \<times> string \<times> lod \<times> int \<times> int"

definition lod_of :: "real \<Rightarrow> real \<Rightarrow> real \<Rightarrow> int \<Rightarrow> int \<Rightarrow> error + lod" where
  "lod_of p_se p_fp p_tp total_count alt_count =
     (let vaf = (if total_count > 0 then real_of_int alt_count / real_of_int total_count else 0);
          denominator = (1 - vaf) * p_se + vaf * p_fp in
      if denominator = 0 then Inl ZeroDivisionError
      else
        (let lod_value = (p_tp * vaf) / denominator in
         Inr (if lod_value > 0 then Fin (log 10 lod_value) else NegInf)))"

definition score_variant ::
  "real \<Rightarrow> real \<Rightarrow> real \<Rightarrow> string \<Rightarrow> int \<Rightarrow> string \<Rightarrow> counts \<Rightarrow> error + result list" where
  "score_variant p_se p_fp p_tp chrom pos ref st =
     (case st of (ref_count, allele_counts) \<Rightarrow>
        (let total_count = ref_count + sum_list (map snd allele_counts) in
         map_err
           (\<lambda>(alt, alt_count).
              case lod_of p_se p_fp p_tp total_count alt_count of
                Inl e \<Rightarrow> Inl e
              | Inr lod \<Rightarrow> Inr (chrom, pos, ref, alt, lod, total_count, alt_count))
           allele_counts))"

subsection \<open>process\_vcf\_chunk\<close>

text \<open>
  The alignment file: the pileup columns, each with its reads, that pysam returns for a
  contig and a half-open range of positions.
\<close>

type_synonym bam = "string \<Rightarrow> int \<Rightarrow> int \<Rightarrow> pileup_read list list"

definition process_line :: "real \<Rightarrow> real \<Rightarrow> real \<Rightarrow> bam \<Rightarrow> string \<Rightarrow> error + result list" where
  "process_line p_se p_fp p_tp bam_file line =
     (case vcf_id_of (split_on (CHR 0x09) (strip line)) of
        Inl e \<Rightarrow> Inl e
      | Inr (chrom, pos, ref, alt) \<Rightarrow>
          (case count_reads ref (split_on (CHR '','') alt) (bam_file chrom (pos - 1) pos) of
             Inl e \<Rightarrow> Inl e
           | Inr st \<Rightarrow> score_variant p_se p_fp p_tp chrom pos ref st))"

definition process_vcf_chunk ::
  "real \<Rightarrow> real \<Rightarrow> real \<Rightarrow> bam \<Rightarrow> string list \<Rightarrow> error + result list" where
  "process_vcf_chunk p_se p_fp p_tp bam_file chunk =
     (case map_err (process_line p_se p_fp p_tp bam_file) chunk of
        Inl e \<Rightarrow> Inl e
      | Inr rs \<Rightarrow> Inr (concat rs))"

subsection \<open>The main program\<close>

text \<open>
  Lines 150 to 157: the data lines whose position is an integer. Only ValueError is
  caught.
\<close>

definition keep_line :: "string list \<Rightarrow> string \<Rightarrow> error + string list" where
  "keep_line vcf_lines line =
     (if startswith line ''#'' then Inr vcf_lines
      else
        (let fields = split_on (CHR 0x09) (strip line) in
         if length fields < 2 then Inl IndexError
         else
           (case py_int (fields ! 1) of
              Inl e \<Rightarrow> if e = ValueError then Inr vcf_lines else Inl e
            | Inr _ \<Rightarrow> Inr (vcf_lines @ [line]))))"

definition read_vcf_lines :: "string list \<Rightarrow> error + string list" where
  "read_vcf_lines vcf_file = fold_err keep_line [] vcf_file"

text \<open>
  Lines 160 to 177: the chunks are processed one by one by the workers and the lists they
  return are concatenated in the order of the chunks. An exception in a worker is raised
  again by the executor, which itself raises ValueError for a worker count below 1.
\<close>

definition gather_results ::
  "real \<Rightarrow> real \<Rightarrow> real \<Rightarrow> bam \<Rightarrow> int \<Rightarrow> string list \<Rightarrow> error + result list" where
  "gather_results p_se p_fp p_tp bam_file num_processes vcf_lines =
     (let num_processes =
            (if length vcf_lines > 0 then min num_processes (int (length vcf_lines)) else 1);
          chunks = chunkify vcf_lines num_processes in
      if vcf_lines = [] then Inr []
      else if num_processes \<le> 0 then Inl ValueError
      else
        (case map_err (process_vcf_chunk p_se p_fp p_tp bam_file) chunks of
           Inl e \<Rightarrow> Inl e
         | Inr rs \<Rightarrow> Inr (concat rs)))"

definition result_key :: "result \<Rightarrow> vcf_id" where
  "result_key r = (case r of (chrom, pos, ref, alt, lod, coverage, num_variant_reads) \<Rightarrow>
     (chrom, pos, ref, alt))"

definition result_lod :: "result \<Rightarrow> lod" where
  "result_lod r = (case r of (chrom, pos, ref, alt, lod, coverage, num_variant_reads) \<Rightarrow> lod)"

definition result_coverage :: "result \<Rightarrow> int" where
  "result_coverage r =
     (case r of (chrom, pos, ref, alt, lod, coverage, num_variant_reads) \<Rightarrow> coverage)"

definition result_variant_reads :: "result \<Rightarrow> int" where
  "result_variant_reads r =
     (case r of (chrom, pos, ref, alt, lod, coverage, num_variant_reads) \<Rightarrow> num_variant_reads)"

text \<open>
  Lines 196 to 213, the body of the loop over the results. The score is the integer 0 or
  the value of \<open>lod\<close>, which is not \<open>-inf\<close> where it is used; the two normalised values are
  computed there and never read.
\<close>

type_synonym det_result = "string \<times> int \<times> string \<times> string \<times> real \<times> string"

definition detectability_of :: "int \<Rightarrow> int \<Rightarrow> result \<Rightarrow> error + det_result" where
  "detectability_of max_coverage max_num_variant_reads r =
     (case r of (chrom, pos, ref, alt, lod, coverage, num_variant_reads) \<Rightarrow>
        (case (case lod of
                 NegInf \<Rightarrow> Inr 0
               | Fin x \<Rightarrow>
                   if coverage \<le> 1 then Inr 0
                   else if max_coverage = 0 then Inl ZeroDivisionError
                   else if max_num_variant_reads = 0 then Inl ZeroDivisionError
                   else Inr x) of
           Inl e \<Rightarrow> Inl e
         | Inr detectability_score \<Rightarrow>
             Inr (chrom, pos, ref, alt, detectability_score,
                  (if detectability_score \<ge> 2.50 then ''Detectable''
                   else if detectability_score > 0 \<and> detectability_score < 2.50
                   then ''Non-detectable''
                   else ''Non-detectable''))))"

text \<open>Lines 189 to 213. \<^verbatim>\<open>max\<close> of an empty list raises ValueError.\<close>

definition detectability_results :: "result list \<Rightarrow> error + det_result list" where
  "detectability_results results =
     (if results = [] then Inl ValueError
      else
        map_err
          (detectability_of (Max (set (map result_coverage results)))
             (Max (set (map result_variant_reads results))))
          results)"

text \<open>
  Lines 216 to 246. The coverage and the number of variant reads of a row are those of
  the first result with the same chromosome, position, reference and alternate; the two
  variables keep their values when no result matches.
\<close>

type_synonym output_row =
  "string \<times> int \<times> string \<times> string \<times> real \<times> string \<times> int \<times> int"

fun output_data :: "result list \<Rightarrow> int \<times> int \<Rightarrow> det_result list \<Rightarrow> output_row list" where
  "output_data results carried_over [] = []"
| "output_data results carried_over
     ((chrom, pos, ref, alt, detectability_score, detectability_condition) # rest) =
     (let (coverage, num_variant_reads) =
            (case find (\<lambda>result. result_key result = (chrom, pos, ref, alt)) results of
               None \<Rightarrow> carried_over
             | Some result \<Rightarrow> (result_coverage result, result_variant_reads result)) in
      (chrom, pos, ref, alt, detectability_score, detectability_condition, coverage,
       num_variant_reads)
      # output_data results (coverage, num_variant_reads) rest)"

text \<open>Lines 180 to 246: the rows written under the header, none for an empty list.\<close>

definition report :: "result list \<Rightarrow> error + output_row list" where
  "report results =
     (if results = [] then Inr []
      else
        (case detectability_results results of
           Inl e \<Rightarrow> Inl e
         | Inr detectability \<Rightarrow>
             Inr (output_data results
                    (result_coverage (last results), result_variant_reads (last results))
                    detectability)))"

text \<open>
  The classification in the words of the specification (section 4.3, step 4), for one
  result of the scoring.
\<close>

definition spec_detectability :: "result \<Rightarrow> det_result" where
  "spec_detectability r =
     (case r of (chrom, pos, ref, alt, lod, T, num_variant_reads) \<Rightarrow>
        (case lod of
           NegInf \<Rightarrow> (chrom, pos, ref, alt, 0, ''Non-detectable'')
         | Fin x \<Rightarrow>
             if T \<le> 1 then (chrom, pos, ref, alt, 0, ''Non-detectable'')
             else (chrom, pos, ref, alt, x,
                   if x \<ge> 2.50 then ''Detectable'' else ''Non-detectable'')))"

subsection \<open>Invariants of the counters and of the results\<close>

text \<open>No counter is negative.\<close>

definition nonneg :: "counts \<Rightarrow> bool" where
  "nonneg st = (0 \<le> fst st \<and> list_all (\<lambda>c. 0 \<le> c) (map snd (snd st)))"

text \<open>
  What holds of a row that \<open>score_variant\<close> writes from counters that are not negative:
  the variant reads are between 0 and the coverage, and \<open>lod\<close> is finite only when there
  is a variant read.
\<close>

definition result_ok :: "result \<Rightarrow> bool" where
  "result_ok r =
     (0 \<le> result_variant_reads r \<and> result_variant_reads r \<le> result_coverage r
      \<and> (result_lod r = NegInf \<or> 0 < result_variant_reads r))"

section \<open>Properties of chunkify\<close>

declare py_range.simps [simp del]

lemma py_range_bound: "i \<in> set (py_range k n step) \<Longrightarrow> i < n"
proof (induction k n step rule: py_range.induct)
  case (1 k n step)
  then show ?case
    by (subst (asm) (2) py_range.simps) (auto split: if_splits)
qed

lemma concat_slices:
  "0 < step \<Longrightarrow>
   concat (map (\<lambda>i. py_slice lst i (i + step)) (py_range k (length lst) step)) = drop k lst"
proof (induction k "length lst" step rule: py_range.induct)
  case (1 k step)
  show ?case
  proof (cases "k < length lst")
    case True
    have "drop k lst = take step (drop k lst) @ drop (k + step) lst"
      by (metis append_take_drop_id drop_drop add.commute)
    with True 1 show ?thesis
      by (subst py_range.simps) (simp add: py_slice_def)
  next
    case False
    then show ?thesis
      by (subst py_range.simps) simp
  qed
qed

text \<open>
  C9: for a non-empty list and any worker count, every chunk that chunkify returns is
  non-empty, and the chunks concatenated in order give the list back.
\<close>

theorem chunkify_nonempty_concat:
  "lst \<noteq> [] \<Longrightarrow> concat (chunkify lst W) = lst \<and> (\<forall>c \<in> set (chunkify lst W). c \<noteq> [])"
proof -
  assume ne: "lst \<noteq> []"
  show ?thesis
  proof (cases "min W (int (length lst)) \<le> 0")
    case True
    with ne show ?thesis by (simp add: chunkify_def Let_def)
  next
    case False
    define cs where "cs = max 1 (length lst div nat (min W (int (length lst))))"
    have pos: "0 < cs" by (simp add: cs_def)
    have eq: "chunkify lst W = map (\<lambda>i. py_slice lst i (i + cs)) (py_range 0 (length lst) cs)"
      using False by (simp add: chunkify_def Let_def cs_def)
    have "concat (chunkify lst W) = lst"
      using concat_slices [OF pos, of lst 0] by (simp add: eq)
    moreover have "\<forall>c \<in> set (chunkify lst W). c \<noteq> []"
    proof
      fix c assume "c \<in> set (chunkify lst W)"
      then obtain i where i: "i \<in> set (py_range 0 (length lst) cs)" and c: "c = py_slice lst i (i + cs)"
        by (auto simp: eq)
      from i have "i < length lst" by (rule py_range_bound)
      with pos show "c \<noteq> []" by (simp add: c py_slice_def)
    qed
    ultimately show ?thesis by simp
  qed
qed

theorem chunkify_nonempty_concat_witness:
  "[1, 2, 3, 4, 5 :: nat] \<noteq> [] \<and> concat (chunkify [1, 2, 3, 4, 5 :: nat] 2) = [1, 2, 3, 4, 5]
   \<and> [] \<notin> set (chunkify [1, 2, 3, 4, 5 :: nat] 2)"
  using chunkify_nonempty_concat [of "[1, 2, 3, 4, 5 :: nat]" 2] by auto

text \<open>A count that is not positive gives the whole list as the only chunk.\<close>

lemma chunkify_nonpositive: "W \<le> 0 \<Longrightarrow> chunkify lst W = [lst]"
  by (simp add: chunkify_def Let_def min_def)

text \<open>
  C3: the claim is that a list of length L > 0 is cut into exactly min(W, L) chunks. With
  five elements and two requested chunks the chunk size is 5 // 2 = 2, and the slices
  starting at 0, 2 and 4 make three chunks.
\<close>

theorem chunkify_five_two:
  "chunkify [1, 2, 3, 4, 5 :: nat] 2 = [[1, 2], [3, 4], [5]]
   \<and> length (chunkify [1, 2, 3, 4, 5 :: nat] 2) = 3
   \<and> nat (min 2 (int (length [1, 2, 3, 4, 5 :: nat]))) = 2"
  by (simp add: chunkify_def py_slice_def py_range.simps)

section \<open>Properties of the merge pass\<close>

lemma fold_err_append:
  "fold_err f s (xs @ ys) = (case fold_err f s xs of Inl e \<Rightarrow> Inl e | Inr s' \<Rightarrow> fold_err f s' ys)"
  by (induction xs arbitrary: s) (auto split: sum.splits)

lemma startswith_iff: "startswith s p \<longleftrightarrow> (\<exists>r. s = p @ r)"
  unfolding startswith_def by (metis append_eq_conv_conj append_take_drop_id)

lemma startswith_hash:
  "startswith l ''##INFO'' \<Longrightarrow> startswith l ''#''"
  "startswith l ''##'' \<Longrightarrow> startswith l ''#''"
  "startswith l ''#C'' \<Longrightarrow> startswith l ''#''"
  by (auto simp: startswith_iff)

lemma read_header_lines:
  "read_header s line = Inr s' \<Longrightarrow>
   updated_vcf_lines s' = updated_vcf_lines s \<and> info_added s' = info_added s
   \<and> (\<not> startswith line ''#'' \<longrightarrow> s' = s)"
  by (auto simp: read_header_def startswith_hash split: if_splits option.splits)

text \<open>What one pass of the loop body appends.\<close>

lemma merge_line_first_info:
  assumes "merge_line d s line = Inr s'" "startswith line ''##INFO''" "\<not> info_added s"
  shows "updated_vcf_lines s' = updated_vcf_lines s @ [line, DET_line, DETS_line] \<and> info_added s'"
proof -
  from assms(2) have "\<not> startswith line ''#C''"
    by (auto simp: startswith_iff)
  with assms show ?thesis
    by (auto simp: merge_line_def read_header_def append_line_def)
qed

lemma merge_line_other:
  assumes "merge_line d s line = Inr s'" "info_added s \<or> \<not> startswith line ''##INFO''"
  shows "\<exists>l. updated_vcf_lines s' = updated_vcf_lines s @ [l] \<and> info_added s' = info_added s
           \<and> carried d line l"
proof -
  from assms(1) obtain s1 where s1: "read_header s line = Inr s1"
    by (auto simp: merge_line_def split: sum.splits)
  note h = read_header_lines [OF s1]
  show ?thesis
  proof (cases "startswith line ''##INFO''")
    case True
    with assms s1 h show ?thesis
      by (auto simp: merge_line_def append_line_def startswith_hash)
  next
    case False
    with assms s1 h show ?thesis
      by (auto simp: merge_line_def append_line_def startswith_hash split: if_splits sum.splits)
  qed
qed

lemma merge_lines_no_insert:
  assumes "fold_err (merge_line d) s ls = Inr s'"
    and "info_added s \<or> (\<forall>l \<in> set ls. \<not> startswith l ''##INFO'')"
  shows "\<exists>os. updated_vcf_lines s' = updated_vcf_lines s @ os \<and> info_added s' = info_added s
           \<and> list_all2 (carried d) ls os"
  using assms
proof (induction ls arbitrary: s)
  case Nil
  then show ?case by simp
next
  case (Cons l ls)
  from Cons.prems(1) obtain s1 where s1: "merge_line d s l = Inr s1"
    and rest: "fold_err (merge_line d) s1 ls = Inr s'"
    by (auto split: sum.splits)
  from Cons.prems(2) have "info_added s \<or> \<not> startswith l ''##INFO''" by auto
  from merge_line_other [OF s1 this] obtain o1 where
    o1: "updated_vcf_lines s1 = updated_vcf_lines s @ [o1]" "info_added s1 = info_added s"
      "carried d l o1"
    by blast
  from Cons.prems(2) o1(2) have "info_added s1 \<or> (\<forall>l \<in> set ls. \<not> startswith l ''##INFO'')"
    by auto
  from Cons.IH [OF rest this] obtain os where
    os: "updated_vcf_lines s' = updated_vcf_lines s1 @ os" "info_added s' = info_added s1"
      "list_all2 (carried d) ls os"
    by blast
  show ?case
    by (rule exI [of _ "o1 # os"]) (use o1 os in simp)
qed

lemma tab_in_join: "2 \<le> length cols \<Longrightarrow> CHR 0x09 \<in> set (join [CHR 0x09] cols)"
proof -
  assume "2 \<le> length cols"
  then obtain x y ys where "cols = x # y # ys"
    by (cases cols; cases "tl cols") auto
  then show ?thesis by simp
qed

lemma merge_data_line_out:
  assumes "merge_data_line d idx l = Inr w"
  shows "w = l \<or> CHR 0x09 \<in> set w"
proof -
  let ?cols = "split_on (CHR 0x09) (strip l)"
  from assms have len: "5 \<le> length ?cols"
    by (auto simp: merge_data_line_def vcf_id_of_def Let_def split: sum.splits if_splits)
  show ?thesis
  proof (cases "w = l")
    case False
    with assms obtain i v where "w = join [CHR 0x09] (?cols[i := v]) @ ''\<newline>''"
      by (auto simp: merge_data_line_def Let_def split: sum.splits option.splits if_splits)
    moreover have "CHR 0x09 \<in> set (join [CHR 0x09] (?cols[i := v]))"
      using len by (intro tab_in_join) simp
    ultimately show ?thesis by simp
  qed simp
qed

lemma header_lines_no_tab:
  "CHR 0x09 \<notin> set DET_line" "CHR 0x09 \<notin> set DETS_line"
  "startswith DET_line ''##INFO''" "startswith DETS_line ''##INFO''"
  by (simp_all add: DET_line_def DETS_line_def startswith_def)

lemma carried_not_header:
  assumes "carried d l w" "\<not> startswith l ''##INFO''"
  shows "w \<noteq> DET_line \<and> w \<noteq> DETS_line"
proof (cases "w = l")
  case True
  with assms(2) header_lines_no_tab show ?thesis by auto
next
  case False
  with assms(1) obtain idx where "merge_data_line d idx l = Inr w"
    by (auto split: if_splits)
  from merge_data_line_out [OF this] False have "CHR 0x09 \<in> set w" by simp
  with header_lines_no_tab show ?thesis by auto
qed

lemma carried_list_not_header:
  assumes "list_all2 (carried d) ls ws" "\<forall>l \<in> set ls. \<not> startswith l ''##INFO''"
  shows "DET_line \<notin> set ws \<and> DETS_line \<notin> set ws"
proof -
  have "w \<noteq> DET_line \<and> w \<noteq> DETS_line" if "w \<in> set ws" for w
  proof -
    from that obtain i where i: "i < length ws" "w = ws ! i"
      by (auto simp: in_set_conv_nth)
    with assms(1) have "ls ! i \<in> set ls" "carried d (ls ! i) w"
      by (simp_all add: list_all2_conv_all_nth)
    then obtain l where "l \<in> set ls" "carried d l w" by blast
    with assms(2) carried_not_header show ?thesis by blast
  qed
  then show ?thesis by blast
qed

text \<open>
  C1, as the code has it: when the merge pass returns and the input has a line starting
  with \<^verbatim>\<open>##INFO\<close>, the DET and DETS header lines stand immediately after the first such
  line, and every other line of the input gives exactly one line of the output, so the
  two lines are inserted once.
\<close>

theorem merge_inserts_after_first_info:
  assumes "\<forall>l \<in> set pre. \<not> startswith l ''##INFO''"
    and "startswith l ''##INFO''"
    and "merge_detectability_into_vcf rows (pre @ l # post) = Inr out"
  shows "\<exists>out_pre out_post.
           out = out_pre @ [l, DET_line, DETS_line] @ out_post
           \<and> list_all2 (carried (detectability_data_dict rows)) pre out_pre
           \<and> list_all2 (carried (detectability_data_dict rows)) post out_post
           \<and> DET_line \<notin> set out_pre \<and> DETS_line \<notin> set out_pre
           \<and> length out = length (pre @ l # post) + 2"
proof -
  let ?d = "detectability_data_dict rows"
  from assms(3) obtain s3 where s3: "fold_err (merge_line ?d) merge_init (pre @ l # post) = Inr s3"
    and out: "out = updated_vcf_lines s3"
    by (auto simp: merge_detectability_into_vcf_def split: sum.splits)
  from s3 obtain s1 s2 where s1: "fold_err (merge_line ?d) merge_init pre = Inr s1"
    and s2: "merge_line ?d s1 l = Inr s2"
    and s3': "fold_err (merge_line ?d) s2 post = Inr s3"
    by (auto simp: fold_err_append split: sum.splits)
  from merge_lines_no_insert [OF s1] assms(1) obtain out_pre where
    pre: "updated_vcf_lines s1 = out_pre" "\<not> info_added s1"
      "list_all2 (carried ?d) pre out_pre"
    by (auto simp: merge_init_def)
  from merge_line_first_info [OF s2 assms(2) pre(2)]
  have mid: "updated_vcf_lines s2 = out_pre @ [l, DET_line, DETS_line]" "info_added s2"
    by (simp_all add: pre(1))
  from merge_lines_no_insert [OF s3'] mid(2) obtain out_post where
    post: "updated_vcf_lines s3 = updated_vcf_lines s2 @ out_post"
      "list_all2 (carried ?d) post out_post"
    by blast
  have o: "out = out_pre @ [l, DET_line, DETS_line] @ out_post"
    using out mid(1) post(1) by simp
  have h: "DET_line \<notin> set out_pre \<and> DETS_line \<notin> set out_pre"
    using pre(3) assms(1) by (rule carried_list_not_header)
  have "length out_pre = length pre" "length out_post = length post"
    using pre(3) post(2) by (simp_all add: list_all2_lengthD)
  with o have "length out = length (pre @ l # post) + 2" by simp
  with o h pre(3) post(2) show ?thesis by blast
qed



lemmas merge_eval =
  merge_detectability_into_vcf_def merge_init_def merge_line_def read_header_def
  startswith_def strip_def isspace_def merge_data_line_def vcf_id_of_def py_int_def isdigit_def
  digits_value_def detectability_data_dict_def add_row_def append_line_def

text \<open>A header with two \<^verbatim>\<open>##INFO\<close> lines: the new lines follow the first.\<close>

theorem merge_inserts_after_first_info_witness:
  "merge_detectability_into_vcf []
     ([''##fileformat=VCFv4.2\<newline>''] @ ''##INFO=<ID=DP>\<newline>'' # [''##INFO=<ID=AF>\<newline>''])
   = Inr [''##fileformat=VCFv4.2\<newline>'', ''##INFO=<ID=DP>\<newline>'', DET_line, DETS_line,
          ''##INFO=<ID=AF>\<newline>'']
   \<and> (\<exists>out_pre out_post.
         [''##fileformat=VCFv4.2\<newline>'', ''##INFO=<ID=DP>\<newline>'', DET_line, DETS_line,
          ''##INFO=<ID=AF>\<newline>'']
         = out_pre @ [''##INFO=<ID=DP>\<newline>'', DET_line, DETS_line] @ out_post
         \<and> list_all2 (carried (detectability_data_dict [])) [''##fileformat=VCFv4.2\<newline>''] out_pre
         \<and> list_all2 (carried (detectability_data_dict [])) [''##INFO=<ID=AF>\<newline>''] out_post
         \<and> DET_line \<notin> set out_pre \<and> DETS_line \<notin> set out_pre)"
proof -
  have a: "\<forall>l \<in> set [''##fileformat=VCFv4.2\<newline>'']. \<not> startswith l ''##INFO''"
    by (simp add: startswith_def)
  have b: "startswith ''##INFO=<ID=DP>\<newline>'' ''##INFO''"
    by (simp add: startswith_def)
  have c: "merge_detectability_into_vcf []
     ([''##fileformat=VCFv4.2\<newline>''] @ ''##INFO=<ID=DP>\<newline>'' # [''##INFO=<ID=AF>\<newline>''])
   = Inr [''##fileformat=VCFv4.2\<newline>'', ''##INFO=<ID=DP>\<newline>'', DET_line, DETS_line,
          ''##INFO=<ID=AF>\<newline>'']"
    by (simp add: merge_eval)
  from merge_inserts_after_first_info [OF a b c] c show ?thesis by blast
qed

text \<open>
  C1 as the claim states it asks for the new lines before the first \<^verbatim>\<open>##INFO\<close> line; the
  output for the same header is not that list.
\<close>

theorem merge_inserts_before_first_info_counterexample:
  "merge_detectability_into_vcf []
     [''##fileformat=VCFv4.2\<newline>'', ''##INFO=<ID=DP>\<newline>'', ''##INFO=<ID=AF>\<newline>'']
   = Inr [''##fileformat=VCFv4.2\<newline>'', ''##INFO=<ID=DP>\<newline>'', DET_line, DETS_line,
          ''##INFO=<ID=AF>\<newline>'']
   \<and> [''##fileformat=VCFv4.2\<newline>'', ''##INFO=<ID=DP>\<newline>'', DET_line, DETS_line,
          ''##INFO=<ID=AF>\<newline>'']
     \<noteq> [''##fileformat=VCFv4.2\<newline>'', DET_line, DETS_line, ''##INFO=<ID=DP>\<newline>'',
          ''##INFO=<ID=AF>\<newline>'']"
  by (simp add: merge_eval DET_line_def)

text \<open>
  C10: when no line of the input starts with \<^verbatim>\<open>##INFO\<close> and the merge pass returns, the
  DET and DETS header lines are nowhere in the output, while every data line is still
  written as lines 41 to 51 write it, annotated where its identity is in the table.
\<close>

theorem no_info_header_no_insert:
  assumes "\<forall>l \<in> set vcf_file. \<not> startswith l ''##INFO''"
    and "merge_detectability_into_vcf rows vcf_file = Inr out"
  shows "DET_line \<notin> set out \<and> DETS_line \<notin> set out
         \<and> list_all2 (carried (detectability_data_dict rows)) vcf_file out"
proof -
  let ?d = "detectability_data_dict rows"
  from assms(2) obtain s where s: "fold_err (merge_line ?d) merge_init vcf_file = Inr s"
    and out: "out = updated_vcf_lines s"
    by (auto simp: merge_detectability_into_vcf_def split: sum.splits)
  from merge_lines_no_insert [OF s] assms(1) have all: "list_all2 (carried ?d) vcf_file out"
    by (auto simp: merge_init_def out)
  from all assms(1) have "DET_line \<notin> set out \<and> DETS_line \<notin> set out"
    by (rule carried_list_not_header)
  with all show ?thesis by blast
qed

text \<open>A column header and one matching record: the record is annotated, no header line is added.\<close>

theorem no_info_header_no_insert_witness:
  "merge_detectability_into_vcf
     [\<lparr>tsv_Chrom = ''chr1'', tsv_Pos = 100, tsv_Ref = ''A'', tsv_Alt = ''T'',
       tsv_Detectability_Score = ''2.75'', tsv_Detectability_Condition = ''Detectable''\<rparr>]
     [''#CHROM'' @ [CHR 0x09] @ ''POS'' @ [CHR 0x09] @ ''ID'' @ [CHR 0x09] @ ''REF'' @ [CHR 0x09]
        @ ''ALT'' @ [CHR 0x09] @ ''QUAL'' @ [CHR 0x09] @ ''FILTER'' @ [CHR 0x09] @ ''INFO\<newline>'',
      ''chr1'' @ [CHR 0x09] @ ''100'' @ [CHR 0x09] @ ''.'' @ [CHR 0x09] @ ''A'' @ [CHR 0x09] @ ''T''
        @ [CHR 0x09] @ ''.'' @ [CHR 0x09] @ ''PASS'' @ [CHR 0x09] @ ''DP=10\<newline>'']
   = Inr [''#CHROM'' @ [CHR 0x09] @ ''POS'' @ [CHR 0x09] @ ''ID'' @ [CHR 0x09] @ ''REF'' @ [CHR 0x09]
        @ ''ALT'' @ [CHR 0x09] @ ''QUAL'' @ [CHR 0x09] @ ''FILTER'' @ [CHR 0x09] @ ''INFO\<newline>'',
      ''chr1'' @ [CHR 0x09] @ ''100'' @ [CHR 0x09] @ ''.'' @ [CHR 0x09] @ ''A'' @ [CHR 0x09] @ ''T''
        @ [CHR 0x09] @ ''.'' @ [CHR 0x09] @ ''PASS'' @ [CHR 0x09] @ ''DP=10;DET=Yes;DETS=2.75\<newline>'']
   \<and> DET_line \<notin> set
      [''#CHROM'' @ [CHR 0x09] @ ''POS'' @ [CHR 0x09] @ ''ID'' @ [CHR 0x09] @ ''REF'' @ [CHR 0x09]
        @ ''ALT'' @ [CHR 0x09] @ ''QUAL'' @ [CHR 0x09] @ ''FILTER'' @ [CHR 0x09] @ ''INFO\<newline>'',
      ''chr1'' @ [CHR 0x09] @ ''100'' @ [CHR 0x09] @ ''.'' @ [CHR 0x09] @ ''A'' @ [CHR 0x09] @ ''T''
        @ [CHR 0x09] @ ''.'' @ [CHR 0x09] @ ''PASS'' @ [CHR 0x09] @ ''DP=10;DET=Yes;DETS=2.75\<newline>'']
   \<and> DETS_line \<notin> set
      [''#CHROM'' @ [CHR 0x09] @ ''POS'' @ [CHR 0x09] @ ''ID'' @ [CHR 0x09] @ ''REF'' @ [CHR 0x09]
        @ ''ALT'' @ [CHR 0x09] @ ''QUAL'' @ [CHR 0x09] @ ''FILTER'' @ [CHR 0x09] @ ''INFO\<newline>'',
      ''chr1'' @ [CHR 0x09] @ ''100'' @ [CHR 0x09] @ ''.'' @ [CHR 0x09] @ ''A'' @ [CHR 0x09] @ ''T''
        @ [CHR 0x09] @ ''.'' @ [CHR 0x09] @ ''PASS'' @ [CHR 0x09] @ ''DP=10;DET=Yes;DETS=2.75\<newline>'']"
  (is "?run = Inr ?out \<and> _ \<and> _")
proof -
  have e: "?run = Inr ?out"
    by (simp add: merge_eval)
  have h: "\<forall>l \<in> set
     [''#CHROM'' @ [CHR 0x09] @ ''POS'' @ [CHR 0x09] @ ''ID'' @ [CHR 0x09] @ ''REF'' @ [CHR 0x09]
        @ ''ALT'' @ [CHR 0x09] @ ''QUAL'' @ [CHR 0x09] @ ''FILTER'' @ [CHR 0x09] @ ''INFO\<newline>'',
      ''chr1'' @ [CHR 0x09] @ ''100'' @ [CHR 0x09] @ ''.'' @ [CHR 0x09] @ ''A'' @ [CHR 0x09] @ ''T''
        @ [CHR 0x09] @ ''.'' @ [CHR 0x09] @ ''PASS'' @ [CHR 0x09] @ ''DP=10\<newline>'']. \<not> startswith l ''##INFO''"
    by (simp add: startswith_def)
  from no_info_header_no_insert [OF h e] e show ?thesis by blast
qed

text \<open>
  C4: the claim is that a record whose position is not a decimal integer passes through
  the merge unchanged. The merge pass raises ValueError at line 43 for the record below,
  which the scoring pass (lines 150 to 157) skips without an error.
\<close>

theorem merge_non_numeric_position:
  "merge_detectability_into_vcf []
     [''chr1'' @ [CHR 0x09] @ ''abc'' @ [CHR 0x09] @ ''.'' @ [CHR 0x09] @ ''A'' @ [CHR 0x09] @ ''T''
        @ [CHR 0x09] @ ''.'' @ [CHR 0x09] @ ''PASS'' @ [CHR 0x09] @ ''DP=10\<newline>'']
     = Inl ValueError
   \<and> read_vcf_lines
     [''chr1'' @ [CHR 0x09] @ ''abc'' @ [CHR 0x09] @ ''.'' @ [CHR 0x09] @ ''A'' @ [CHR 0x09] @ ''T''
        @ [CHR 0x09] @ ''.'' @ [CHR 0x09] @ ''PASS'' @ [CHR 0x09] @ ''DP=10\<newline>'']
     = Inr []"
  by (simp add: merge_eval read_vcf_lines_def keep_line_def)

section \<open>Properties of the scoring pass\<close>

subsection \<open>Loops that can raise\<close>

lemma nonneg_pair: "nonneg (rc, ac) \<longleftrightarrow> 0 \<le> rc \<and> (\<forall>c \<in> snd ` set ac. 0 \<le> c)"
  by (simp add: nonneg_def list_all_iff)

lemma fold_err_invariant:
  assumes "fold_err f s xs = Inr s'" "P s" "\<And>s x s'. P s \<Longrightarrow> f s x = Inr s' \<Longrightarrow> P s'"
  shows "P s'"
  using assms(1,2)
proof (induction xs arbitrary: s)
  case Nil
  then show ?case by simp
next
  case (Cons x xs)
  from Cons.prems(1) obtain s1 where "f s x = Inr s1" "fold_err f s1 xs = Inr s'"
    by (auto split: sum.splits)
  with Cons.IH Cons.prems(2) assms(3) show ?case by blast
qed

lemma map_err_all2: "map_err f xs = Inr ys \<Longrightarrow> list_all2 (\<lambda>x y. f x = Inr y) xs ys"
  by (induction xs arbitrary: ys) (auto split: sum.splits)

lemma map_err_mem: "map_err f xs = Inr ys \<Longrightarrow> y \<in> set ys \<Longrightarrow> \<exists>x \<in> set xs. f x = Inr y"
  by (induction xs arbitrary: ys) (auto split: sum.splits)

lemma map_err_map: "(\<And>x. x \<in> set xs \<Longrightarrow> f x = Inr (g x)) \<Longrightarrow> map_err f xs = Inr (map g xs)"
  by (induction xs) auto

lemma map_err_concat_all:
  assumes "map_err f xs = Inr rs" "\<And>x ys. x \<in> set xs \<Longrightarrow> f x = Inr ys \<Longrightarrow> \<forall>r \<in> set ys. P r"
  shows "\<forall>r \<in> set (concat rs). P r"
proof -
  from map_err_all2 [OF assms(1)] have a: "list_all2 (\<lambda>x y. f x = Inr y) xs rs" .
  show ?thesis
  proof
    fix r assume "r \<in> set (concat rs)"
    then obtain ys where ys: "ys \<in> set rs" "r \<in> set ys" by auto
    then obtain i where i: "i < length rs" "ys = rs ! i" by (auto simp: in_set_conv_nth)
    with a have "f (xs ! i) = Inr ys" "xs ! i \<in> set xs"
      by (simp_all add: list_all2_conv_all_nth)
    with assms(2) ys(2) show "P r" by blast
  qed
qed

subsection \<open>The counters\<close>

lemma values_update: "snd ` set (AList.update k v al) \<subseteq> insert v (snd ` set al)"
  by (induction al) auto

lemma values_map_entry:
  "c \<in> snd ` set (AList.map_entry k f al) \<Longrightarrow> c \<in> snd ` set al \<or> (\<exists>c' \<in> snd ` set al. c = f c')"
  by (induction al) (auto split: if_splits)

lemma keys_map_entry: "map fst (AList.map_entry k f al) = map fst al"
  by (induction al) auto

lemma values_init_aux:
  "snd ` set d \<subseteq> {0} \<Longrightarrow> snd ` set (foldl (\<lambda>d allele. AList.update allele (0::int) d) d alts) \<subseteq> {0}"
proof (induction alts arbitrary: d)
  case Nil
  then show ?case by simp
next
  case (Cons a alts)
  have "snd ` set (AList.update a 0 d) \<subseteq> {0}"
    using values_update [of a 0 d] Cons.prems by auto
  from Cons.IH [OF this] show ?case by simp
qed

lemma values_init: "snd ` set (init_allele_counts alts) \<subseteq> {0}"
  unfolding init_allele_counts_def by (rule values_init_aux) simp

lemma keys_init_aux:
  "fst ` set (foldl (\<lambda>d allele. AList.update allele (0::int) d) d alts) = fst ` set d \<union> set alts"
  by (induction alts arbitrary: d) (auto simp: dom_update)

lemma keys_init: "fst ` set (init_allele_counts alts) = set alts"
  by (simp add: init_allele_counts_def keys_init_aux)

lemma distinct_init_aux:
  "distinct (map fst d) \<Longrightarrow> distinct (map fst (foldl (\<lambda>d allele. AList.update allele (0::int) d) d alts))"
  by (induction alts arbitrary: d) (auto simp: distinct_update)

lemma distinct_init: "distinct (map fst (init_allele_counts alts))"
  by (simp add: init_allele_counts_def distinct_init_aux)

lemma nonneg_incr:
  assumes "nonneg (rc, ac)"
  shows "nonneg (rc, incr k ac)"
proof -
  have "0 \<le> c" if "c \<in> snd ` set (incr k ac)" for c
  proof -
    from that have "c \<in> snd ` set ac \<or> (\<exists>c' \<in> snd ` set ac. c = c' + 1)"
      unfolding incr_def by (rule values_map_entry)
    with assms show ?thesis unfolding nonneg_pair by fastforce
  qed
  with assms show ?thesis unfolding nonneg_pair by blast
qed

lemma nonneg_ref: "nonneg (rc, ac) \<Longrightarrow> nonneg (rc + 1, ac)"
  by (simp add: nonneg_pair)

lemma nonneg_indel_step:
  assumes "nonneg st"
  shows "nonneg (indel_step ref n st a)"
proof -
  obtain rc ac where st: "st = (rc, ac)" by (cases st)
  have "indel_step ref n (rc, ac) a = (rc, incr a ac) \<or> indel_step ref n (rc, ac) a = (rc + 1, ac)
      \<or> indel_step ref n (rc, ac) a = (rc, ac)"
    by (simp add: indel_step_def)
  moreover have "nonneg (rc, incr a ac)" using assms unfolding st by (rule nonneg_incr)
  moreover have "nonneg (rc + 1, ac)" using assms unfolding st by (rule nonneg_ref)
  moreover have "nonneg (rc, ac)" using assms unfolding st .
  ultimately show ?thesis unfolding st by (elim disjE) simp_all
qed

lemma nonneg_indel_fold: "nonneg st \<Longrightarrow> nonneg (foldl (indel_step ref n) st alts)"
proof (induction alts arbitrary: st)
  case Nil
  then show ?case by simp
next
  case (Cons a alts)
  from Cons.prems have "nonneg (indel_step ref n st a)" by (rule nonneg_indel_step)
  from Cons.IH [OF this] show ?case by simp
qed

lemma nonneg_classify_read:
  assumes "nonneg st" "classify_read ref alts st r = Inr st'"
  shows "nonneg st'"
proof -
  obtain rc ac where st: "st = (rc, ac)" by (cases st)
  have a: "nonneg (rc + 1, ac)" using assms(1) unfolding st by (rule nonneg_ref)
  have b: "nonneg (rc, incr k ac)" for k using assms(1) unfolding st by (rule nonneg_incr)
  have c: "nonneg (foldl (indel_step ref (indel r)) (rc, ac) alts)"
    using assms(1) unfolding st by (rule nonneg_indel_fold)
  from assms(2) have "st' = (rc, ac) \<or> st' = (rc + 1, ac) \<or> (\<exists>k. st' = (rc, incr k ac))
      \<or> st' = foldl (indel_step ref (indel r)) (rc, ac) alts"
    unfolding st classify_read_def Let_def by (auto split: if_splits)
  then show ?thesis
  proof (elim disjE exE)
    assume "st' = (rc, ac)" with assms(1) st show ?thesis by simp
  qed (simp_all add: a b c)
qed

lemma nonneg_count_reads:
  assumes "count_reads ref alts pileup = Inr st"
  shows "nonneg st"
proof -
  have "snd ` set (init_allele_counts alts) \<subseteq> {0}" by (rule values_init)
  then have "nonneg (0, init_allele_counts alts)"
    unfolding nonneg_pair by auto
  with assms [unfolded count_reads_def] show ?thesis
    by (rule fold_err_invariant [where P = nonneg]) (rule nonneg_classify_read)
qed


lemma keys_incr: "map fst (incr k ac) = map fst ac"
  by (simp add: incr_def keys_map_entry)

lemma keys_indel_step: "map fst (snd (indel_step ref n st a)) = map fst (snd st)"
  by (cases st) (simp add: indel_step_def keys_incr)

lemma keys_indel_fold: "map fst (snd (foldl (indel_step ref n) st alts)) = map fst (snd st)"
  by (induction alts arbitrary: st) (simp_all add: keys_indel_step)

lemma keys_classify_read:
  assumes "classify_read ref alts st r = Inr st'"
  shows "map fst (snd st') = map fst (snd st)"
proof -
  obtain rc ac where st: "st = (rc, ac)" by (cases st)
  from assms have "st' = (rc, ac) \<or> st' = (rc + 1, ac) \<or> (\<exists>k. st' = (rc, incr k ac))
      \<or> st' = foldl (indel_step ref (indel r)) (rc, ac) alts"
    unfolding st classify_read_def Let_def by (auto split: if_splits)
  then show ?thesis
    unfolding st by (elim disjE exE) (simp_all add: keys_incr keys_indel_fold)
qed

lemma keys_count_reads:
  assumes "count_reads ref alts pileup = Inr st"
  shows "map fst (snd st) = map fst (init_allele_counts alts)"
proof -
  have "map fst (snd (0::int, init_allele_counts alts)) = map fst (init_allele_counts alts)"
    by simp
  with assms [unfolded count_reads_def] show ?thesis
    by (rule fold_err_invariant [where P = "\<lambda>st. map fst (snd st) = map fst (init_allele_counts alts)"])
      (simp add: keys_classify_read)
qed

subsection \<open>The rows of one variant\<close>

lemma member_le_sum_list:
  fixes c :: int
  shows "\<forall>c \<in> set cs. 0 \<le> c \<Longrightarrow> c \<in> set cs \<Longrightarrow> c \<le> sum_list cs"
proof (induction cs)
  case Nil
  then show ?case by simp
next
  case (Cons d cs)
  have "0 \<le> sum_list cs" using Cons.prems(1) by (simp add: sum_list_nonneg)
  with Cons show ?case by auto
qed

lemma lod_of_Fin:
  assumes "lod_of p_se p_fp p_tp T c = Inr (Fin x)"
  shows "c \<noteq> 0 \<and> 0 < T"
proof (rule ccontr)
  assume "\<not> (c \<noteq> 0 \<and> 0 < T)"
  then have "(if T > 0 then real_of_int c / real_of_int T else 0) = 0" by auto
  with assms show False
    by (simp add: lod_of_def Let_def split: if_splits)
qed

lemma lod_of_zero: "p_se \<noteq> 0 \<Longrightarrow> lod_of p_se p_fp p_tp 0 c = Inr NegInf"
  by (simp add: lod_of_def)

lemma result_fields [simp]:
  "result_key (chrom, pos, ref, alt, l, coverage, n) = (chrom, pos, ref, alt)"
  "result_lod (chrom, pos, ref, alt, l, coverage, n) = l"
  "result_coverage (chrom, pos, ref, alt, l, coverage, n) = coverage"
  "result_variant_reads (chrom, pos, ref, alt, l, coverage, n) = n"
  by (simp_all add: result_key_def result_lod_def result_coverage_def result_variant_reads_def)

lemma score_variant_ok:
  assumes "nonneg st" "score_variant p_se p_fp p_tp chrom pos ref st = Inr rows"
  shows "\<forall>r \<in> set rows. result_ok r"
proof
  fix r assume r: "r \<in> set rows"
  obtain rc ac where st: "st = (rc, ac)" by (cases st)
  define T where "T = rc + sum_list (map snd ac)"
  let ?f = "\<lambda>(alt, alt_count).
              case lod_of p_se p_fp p_tp T alt_count of
                Inl e \<Rightarrow> Inl e
              | Inr lod \<Rightarrow> Inr (chrom, pos, ref, alt, lod, T, alt_count)"
  have "map_err ?f ac = Inr rows"
    unfolding T_def using assms(2) by (simp add: score_variant_def st Let_def)
  from map_err_mem [OF this r] obtain p where p: "p \<in> set ac" "?f p = Inr r"
    by blast
  obtain a c where ac: "p = (a, c)" by (cases p)
  from p(2) obtain l where l: "lod_of p_se p_fp p_tp T c = Inr l" "r = (chrom, pos, ref, a, l, T, c)"
    by (auto simp: ac split: sum.splits)
  from assms(1) have nn: "0 \<le> rc" "\<forall>c \<in> set (map snd ac). 0 \<le> c"
    by (auto simp: st nonneg_pair)
  from p(1) have cin: "c \<in> set (map snd ac)" by (force simp: ac)
  with nn have c0: "0 \<le> c" by blast
  from member_le_sum_list [OF nn(2) cin] nn(1) have cT: "c \<le> T" by (simp add: T_def)
  have "l = NegInf \<or> 0 < c"
  proof (cases l)
    case (Fin x)
    with lod_of_Fin l(1) c0 show ?thesis by fastforce
  qed simp
  with c0 cT show "result_ok r" by (simp add: l(2) result_ok_def)
qed

lemma process_line_ok:
  assumes "process_line p_se p_fp p_tp bam_file line = Inr rows"
  shows "\<forall>r \<in> set rows. result_ok r"
proof -
  from assms obtain chrom pos ref alt st where
    st: "count_reads ref (split_on (CHR '','') alt) (bam_file chrom (pos - 1) pos) = Inr st"
    and rows: "score_variant p_se p_fp p_tp chrom pos ref st = Inr rows"
    by (auto simp: process_line_def split: sum.splits)
  from nonneg_count_reads [OF st] rows show ?thesis by (rule score_variant_ok)
qed

lemma process_vcf_chunk_ok:
  assumes "process_vcf_chunk p_se p_fp p_tp bam_file chunk = Inr rows"
  shows "\<forall>r \<in> set rows. result_ok r"
proof -
  from assms obtain rs where rs: "map_err (process_line p_se p_fp p_tp bam_file) chunk = Inr rs"
    and rows: "rows = concat rs"
    by (auto simp: process_vcf_chunk_def split: sum.splits)
  from rs show ?thesis unfolding rows
    by (rule map_err_concat_all) (rule process_line_ok)
qed

lemma gather_results_ok:
  assumes "gather_results p_se p_fp p_tp bam_file n vcf_lines = Inr results"
  shows "\<forall>r \<in> set results. result_ok r"
proof (cases "vcf_lines = []")
  case True
  with assms show ?thesis by (simp add: gather_results_def Let_def)
next
  case False
  with assms obtain chunks rs where
    rs: "map_err (process_vcf_chunk p_se p_fp p_tp bam_file) chunks = Inr rs"
    and results: "results = concat rs"
    by (auto simp: gather_results_def Let_def split: sum.splits if_splits)
  from rs show ?thesis unfolding results
    by (rule map_err_concat_all) (rule process_vcf_chunk_ok)
qed


subsection \<open>Classification\<close>

lemma detectability_of_spec:
  assumes "result_ok r" "r \<in> set results"
  shows "detectability_of (Max (set (map result_coverage results)))
           (Max (set (map result_variant_reads results))) r = Inr (spec_detectability r)"
proof -
  obtain chrom pos ref alt l T n where r: "r = (chrom, pos, ref, alt, l, T, n)"
    by (cases r)
  show ?thesis
  proof (cases l)
    case NegInf
    then show ?thesis by (simp add: r detectability_of_def spec_detectability_def)
  next
    case (Fin x)
    show ?thesis
    proof (cases "T \<le> 1")
      case True
      with Fin show ?thesis by (simp add: r detectability_of_def spec_detectability_def)
    next
      case False
      from assms(1) Fin have n: "0 < n" by (simp add: r result_ok_def)
      have "T \<le> Max (set (map result_coverage results))"
        using assms(2) by (intro Max_ge) (force simp: r)+
      with False have a: "Max (set (map result_coverage results)) \<noteq> 0" by linarith
      have "n \<le> Max (set (map result_variant_reads results))"
        using assms(2) by (intro Max_ge) (force simp: r)+
      with n have b: "Max (set (map result_variant_reads results)) \<noteq> 0" by linarith
      from False Fin a b show ?thesis
        by (simp add: r detectability_of_def spec_detectability_def)
    qed
  qed
qed

lemma detectability_results_spec:
  assumes "\<forall>r \<in> set results. result_ok r" "results \<noteq> []"
  shows "detectability_results results = Inr (map spec_detectability results)"
proof -
  have "map_err
          (detectability_of (Max (set (map result_coverage results)))
             (Max (set (map result_variant_reads results))))
          results = Inr (map spec_detectability results)"
  proof (rule map_err_map)
    fix r assume "r \<in> set results"
    with assms(1) show "detectability_of (Max (set (map result_coverage results)))
             (Max (set (map result_variant_reads results))) r = Inr (spec_detectability r)"
      by (intro detectability_of_spec) blast+
  qed
  with assms(2) show ?thesis by (simp only: detectability_results_def if_False)
qed

text \<open>
  C6: for the results that the scoring pass gathers, the loop of lines 189 to 213 raises
  nothing and gives every result the score and the label of the specification: score 0
  and Non-detectable when lod is -inf or the coverage is at most 1, otherwise the score
  lod, with Detectable exactly when lod is at least 2.50.
\<close>

theorem classification_of_scored_pairs:
  assumes "gather_results p_se p_fp p_tp bam_file num_processes vcf_lines = Inr results"
    and "results \<noteq> []"
  shows "detectability_results results = Inr (map spec_detectability results)"
  using gather_results_ok [OF assms(1)] assms(2) by (rule detectability_results_spec)

subsection \<open>The output table\<close>

lemma length_output_data: "length (output_data results carry dets) = length dets"
proof (induction dets arbitrary: carry)
  case Nil
  then show ?case by simp
next
  case (Cons d dets)
  obtain chrom pos ref alt score cond where d: "d = (chrom, pos, ref, alt, score, cond)"
    by (cases d)
  show ?case
    unfolding d by (simp add: Let_def Cons.IH split: prod.splits)
qed

lemma output_data_nth:
  assumes "i < length dets" "dets ! i = (chrom, pos, ref, alt, score, cond)"
    and "find (\<lambda>result. result_key result = (chrom, pos, ref, alt)) results = Some r0"
  shows "output_data results carry dets ! i =
           (chrom, pos, ref, alt, score, cond, result_coverage r0, result_variant_reads r0)"
  using assms(1,2)
proof (induction dets arbitrary: i carry)
  case Nil
  then show ?case by simp
next
  case (Cons d dets)
  obtain chrom' pos' ref' alt' score' cond' where
    d: "d = (chrom', pos', ref', alt', score', cond')"
    by (cases d)
  show ?case
  proof (cases i)
    case 0
    with Cons.prems have "d = (chrom, pos, ref, alt, score, cond)" by simp
    then show ?thesis
      by (simp add: 0 Let_def assms(3))
  next
    case (Suc j)
    with Cons.prems have j: "j < length dets" "dets ! j = (chrom, pos, ref, alt, score, cond)"
      by simp_all
    show ?thesis
      unfolding d Suc by (simp add: Let_def Cons.IH [OF j] split: prod.splits)
  qed
qed

lemma find_some_key:
  assumes "i < length results"
  shows "\<exists>r0. find (\<lambda>result. result_key result = result_key (results ! i)) results = Some r0"
proof (cases "find (\<lambda>result. result_key result = result_key (results ! i)) results")
  case None
  then have "\<not> (\<exists>x. x \<in> set results \<and> result_key x = result_key (results ! i))"
    unfolding find_None_iff by blast
  moreover have "results ! i \<in> set results" using assms by (rule nth_mem)
  ultimately show ?thesis by blast
next
  case (Some r0)
  then show ?thesis by blast
qed


lemma sum_zero_all_zero:
  fixes cs :: "int list"
  assumes "\<forall>c \<in> set cs. 0 \<le> c" "0 \<le> rc" "rc + sum_list cs = 0"
  shows "rc = 0 \<and> (\<forall>c \<in> set cs. c = 0)"
proof -
  have s: "0 \<le> sum_list cs" using assms(1) by (simp add: sum_list_nonneg)
  with assms(2,3) have "rc = 0" "sum_list cs = 0" by linarith+
  moreover have "c = 0" if "c \<in> set cs" for c
    using member_le_sum_list [OF assms(1) that] assms(1) that \<open>sum_list cs = 0\<close> by force
  ultimately show ?thesis by blast
qed

lemma score_variant_zero:
  assumes "p_se \<noteq> 0" "count_reads ref alt_alleles pileup = Inr (ref_count, allele_counts)"
    and "ref_count + sum_list (map snd allele_counts) = 0"
  shows "score_variant p_se p_fp p_tp chrom pos ref (ref_count, allele_counts)
           = Inr (map (\<lambda>a. (chrom, pos, ref, a, NegInf, 0, 0)) (map fst allele_counts))"
    and "set (map fst allele_counts) = set alt_alleles"
    and "distinct (map fst allele_counts)"
proof -
  from nonneg_count_reads [OF assms(2)]
  have "0 \<le> ref_count" "\<forall>c \<in> set (map snd allele_counts). 0 \<le> c"
    by (auto simp: nonneg_pair)
  from sum_zero_all_zero [OF this(2,1) assms(3)]
  have z: "\<forall>c \<in> set (map snd allele_counts). c = 0" by blast
  let ?f = "\<lambda>(alt, alt_count).
              case lod_of p_se p_fp p_tp 0 alt_count of
                Inl e \<Rightarrow> Inl e
              | Inr lod \<Rightarrow> Inr (chrom, pos, ref, alt, lod, 0, alt_count)"
  have "map_err ?f allele_counts
          = Inr (map (\<lambda>p. (chrom, pos, ref, fst p, NegInf, 0, 0)) allele_counts)"
  proof (rule map_err_map)
    fix p assume p: "p \<in> set allele_counts"
    obtain a c where ac: "p = (a, c)" by (cases p)
    from p z have "c = 0" by (force simp: ac)
    then show "?f p = Inr (chrom, pos, ref, fst p, NegInf, 0, 0)"
      by (simp add: ac lod_of_zero [OF assms(1)])
  qed
  then show "score_variant p_se p_fp p_tp chrom pos ref (ref_count, allele_counts)
           = Inr (map (\<lambda>a. (chrom, pos, ref, a, NegInf, 0, 0)) (map fst allele_counts))"
    unfolding score_variant_def Let_def prod.case assms(3) by (simp add: comp_def)
  from keys_count_reads [OF assms(2)]
  have k: "map fst allele_counts = map fst (init_allele_counts alt_alleles)"
    by simp
  then have "set (map fst allele_counts) = fst ` set (init_allele_counts alt_alleles)" by simp
  then show "set (map fst allele_counts) = set alt_alleles" by (simp only: keys_init)
  show "distinct (map fst allele_counts)" unfolding k by (rule distinct_init)
qed

lemma report_zero_coverage:
  assumes "gather_results p_se p_fp p_tp bam_file num_processes vcf_lines = Inr results"
    and "i < length results" "result_coverage (results ! i) = 0"
  shows "\<exists>out. report results = Inr out \<and> length out = length results \<and>
           (\<exists>chrom pos ref alt cov n.
              result_key (results ! i) = (chrom, pos, ref, alt) \<and>
              out ! i = (chrom, pos, ref, alt, 0, ''Non-detectable'', cov, n) \<and>
              ((\<forall>j < i. result_key (results ! j) = result_key (results ! i)
                   \<longrightarrow> result_coverage (results ! j) = 0)
                 \<longrightarrow> cov = 0 \<and> n = 0))"
proof -
  let ?carry = "(result_coverage (last results), result_variant_reads (last results))"
  let ?dets = "map spec_detectability results"
  let ?out = "output_data results ?carry ?dets"
  from assms(2) have ne: "results \<noteq> []" by auto
  have ok: "\<forall>r \<in> set results. result_ok r" using assms(1) by (rule gather_results_ok)
  from detectability_results_spec [OF ok ne] ne have rep: "report results = Inr ?out"
    by (simp add: report_def)
  have len: "length ?out = length results" by (simp add: length_output_data)
  obtain chrom pos ref alt l T n where r: "results ! i = (chrom, pos, ref, alt, l, T, n)"
    by (cases "results ! i")
  from assms(3) have T: "T = 0" by (simp add: r)
  from ok assms(2) have "result_ok (results ! i)" by simp
  with T have n: "n = 0" and l: "l = NegInf" by (auto simp: r result_ok_def)
  have d: "?dets ! i = (chrom, pos, ref, alt, 0, ''Non-detectable'')"
    using assms(2) by (simp add: r l spec_detectability_def)
  from find_some_key [OF assms(2)] obtain r0 where
    r0: "find (\<lambda>result. result_key result = (chrom, pos, ref, alt)) results = Some r0"
    by (auto simp: r)
  have "i < length ?dets" using assms(2) by simp
  from output_data_nth [OF this d r0]
  have o: "?out ! i = (chrom, pos, ref, alt, 0, ''Non-detectable'', result_coverage r0,
             result_variant_reads r0)" .
  have "result_coverage r0 = 0 \<and> result_variant_reads r0 = 0"
    if h: "\<forall>j < i. result_key (results ! j) = result_key (results ! i)
             \<longrightarrow> result_coverage (results ! j) = 0"
  proof -
    from r0 obtain j where j: "j < length results" "r0 = results ! j"
      "result_key r0 = (chrom, pos, ref, alt)"
      "\<forall>k < j. result_key (results ! k) \<noteq> (chrom, pos, ref, alt)"
      unfolding find_Some_iff by blast
    have "\<not> i < j" using j(4) r by auto
    then have "j < i \<or> j = i" by linarith
    then have c0: "result_coverage r0 = 0"
    proof
      assume "j < i"
      with h j(2,3) r show ?thesis by simp
    next
      assume "j = i"
      with j(2) r T show ?thesis by simp
    qed
    from ok j(1,2) have "result_ok r0" by simp
    with c0 show ?thesis by (simp add: result_ok_def)
  qed
  with rep len o r show ?thesis by auto
qed

text \<open>
  A variant with no informative read. When p_se is not 0, scoring its counters raises
  nothing and gives one row for each alternate allele, with lod -inf, coverage 0 and 0
  variant reads. Such a row of the gathered results is reported with score 0 and the
  label Non-detectable, and with coverage 0 and 0 variant reads when every earlier result
  with the same chromosome, position, reference and alternate has coverage 0 as well
  (lines 225 to 233 take the two counts from the first result with that identity).
\<close>

lemma zero_coverage_variant:
  "(p_se \<noteq> 0 \<longrightarrow>
      count_reads ref alt_alleles pileup = Inr (ref_count, allele_counts) \<longrightarrow>
      ref_count + sum_list (map snd allele_counts) = 0 \<longrightarrow>
      score_variant p_se p_fp p_tp chrom pos ref (ref_count, allele_counts)
        = Inr (map (\<lambda>a. (chrom, pos, ref, a, NegInf, 0, 0)) (map fst allele_counts))
      \<and> set (map fst allele_counts) = set alt_alleles \<and> distinct (map fst allele_counts))
   \<and> (gather_results p_se p_fp p_tp bam_file num_processes vcf_lines = Inr results \<longrightarrow>
      i < length results \<longrightarrow> result_coverage (results ! i) = 0 \<longrightarrow>
      (\<exists>out. report results = Inr out \<and> length out = length results \<and>
         (\<exists>chrom' pos' ref' alt' cov n.
            result_key (results ! i) = (chrom', pos', ref', alt') \<and>
            out ! i = (chrom', pos', ref', alt', 0, ''Non-detectable'', cov, n) \<and>
            ((\<forall>j < i. result_key (results ! j) = result_key (results ! i)
                   \<longrightarrow> result_coverage (results ! j) = 0)
               \<longrightarrow> cov = 0 \<and> n = 0))))"
proof (intro conjI impI)
  assume "p_se \<noteq> 0" "count_reads ref alt_alleles pileup = Inr (ref_count, allele_counts)"
    "ref_count + sum_list (map snd allele_counts) = 0"
  then show "score_variant p_se p_fp p_tp chrom pos ref (ref_count, allele_counts)
        = Inr (map (\<lambda>a. (chrom, pos, ref, a, NegInf, 0, 0)) (map fst allele_counts))"
    and "set (map fst allele_counts) = set alt_alleles"
    and "distinct (map fst allele_counts)"
    by (rule score_variant_zero)+
next
  assume "gather_results p_se p_fp p_tp bam_file num_processes vcf_lines = Inr results"
    "i < length results" "result_coverage (results ! i) = 0"
  then show "\<exists>out. report results = Inr out \<and> length out = length results \<and>
         (\<exists>chrom' pos' ref' alt' cov n.
            result_key (results ! i) = (chrom', pos', ref', alt') \<and>
            out ! i = (chrom', pos', ref', alt', 0, ''Non-detectable'', cov, n) \<and>
            ((\<forall>j < i. result_key (results ! j) = result_key (results ! i)
                   \<longrightarrow> result_coverage (results ! j) = 0)
               \<longrightarrow> cov = 0 \<and> n = 0))"
    by (rule report_zero_coverage)
qed

subsection \<open>Concrete runs\<close>

lemmas count_eval =
  count_reads_def classify_read_def indel_step_def incr_def init_allele_counts_def Let_def

text \<open>
  Where the variant is not an indel (lines 43 to 65), a read adds at most one to the
  counters in total, and at most one to ref_count.
\<close>

lemma sum_incr:
  "sum_list (map snd (incr k ac))
     = sum_list (map snd ac) + (if k \<in> set (map fst ac) then 1 else 0)"
  unfolding incr_def by (induction ac) auto

lemma substitution_read_counts_once:
  assumes "length ref = Max (set (map length alt_alleles))"
    and "classify_read ref alt_alleles (ref_count, allele_counts) r = Inr (ref_count', allele_counts')"
  shows "(ref_count' + sum_list (map snd allele_counts') = ref_count + sum_list (map snd allele_counts)
          \<or> ref_count' + sum_list (map snd allele_counts')
              = ref_count + sum_list (map snd allele_counts) + 1)
         \<and> ref_count' \<le> ref_count + 1"
proof -
  from assms have "(ref_count', allele_counts') = (ref_count, allele_counts)
      \<or> (ref_count', allele_counts') = (ref_count + 1, allele_counts)
      \<or> (\<exists>k. (ref_count', allele_counts') = (ref_count, incr k allele_counts))"
    unfolding classify_read_def Let_def by (auto split: if_splits)
  then show ?thesis
    by (elim disjE exE) (simp_all add: sum_incr)
qed

text \<open>
  C2: the claim is that a read adds exactly one to the counters when it is informative,
  and never more than one to ref_count. At an indel with two alternates, one read without
  an indel passes the \<^verbatim>\<open>elif indel == 0\<close> branch once for each alternate: ref_count is 2
  after a single informative read.
\<close>

theorem ref_count_twice:
  "count_reads ''A'' [''ATT'', ''ATTT'']
     [[\<lparr>is_refskip = False, is_del = False, query_position = 0, query_sequence = ''A'',
        indel = 0\<rparr>]]
   = Inr (2, [(''ATT'', 0), (''ATTT'', 0)])
   \<and> length (filter (informative_indel ''A'' [''ATT'', ''ATTT''])
       [\<lparr>is_refskip = False, is_del = False, query_position = 0, query_sequence = ''A'',
         indel = 0\<rparr>]) = 1"
  by (simp add: count_eval informative_indel_def)

text \<open>
  C5: the claim is that, independently of the alternates, a read with indel length 0
  increments the reference counter. For the same read and alternates the loop of lines 69
  to 73 adds 2 to ref_count, where the rule as the specification words it adds 1.
\<close>

theorem indel_rule_multiallelic:
  "classify_read ''A'' [''ATT'', ''ATTT''] (0, [(''ATT'', 0), (''ATTT'', 0)])
     \<lparr>is_refskip = False, is_del = False, query_position = 0, query_sequence = ''A'',
       indel = 0\<rparr>
   = Inr (2, [(''ATT'', 0), (''ATTT'', 0)])
   \<and> indel_rule_spec ''A'' [''ATT'', ''ATTT''] (0, [(''ATT'', 0), (''ATTT'', 0)]) 0
   = (1, [(''ATT'', 0), (''ATTT'', 0)])"
  by (simp add: count_eval indel_rule_spec_def)

text \<open>
  With a single alternate the loop and the rule agree, and the three reads of the
  specification's scenario are counted as it says.
\<close>

lemma indel_single_alternate:
  assumes "length a \<noteq> length ref" "\<not> is_refskip r"
  shows "classify_read ref [a] st r = Inr (indel_rule_spec ref [a] st (indel r))"
  using assms by (cases st) (auto simp: classify_read_def indel_step_def indel_rule_spec_def)

lemma indel_scenarios:
  "classify_read ''A'' [''ATT''] (rc, [(''ATT'', n)]) (r\<lparr>is_refskip := False, indel := 2\<rparr>)
     = Inr (rc, [(''ATT'', n + 1)])"
  "classify_read ''A'' [''ATT''] (rc, [(''ATT'', n)]) (r\<lparr>is_refskip := False, indel := 0\<rparr>)
     = Inr (rc + 1, [(''ATT'', n)])"
  "classify_read ''A'' [''ATT''] (rc, [(''ATT'', n)]) (r\<lparr>is_refskip := False, indel := 1\<rparr>)
     = Inr (rc, [(''ATT'', n)])"
  by (simp_all add: count_eval)


lemmas gather_eval =
  gather_results_def chunkify_def py_range.simps py_slice_def process_vcf_chunk_def process_line_def
  vcf_id_of_def py_int_def strip_def isspace_def isdigit_def digits_value_def
  score_variant_def lod_of_def


text \<open>One record with a reference read and a variant read, scored with the default parameters.\<close>

theorem classification_of_scored_pairs_witness:
  "gather_results (1 / 10000) (1 / 1000) (999 / 1000)
     (\<lambda>chrom start stop.
        [[\<lparr>is_refskip = False, is_del = False, query_position = 0, query_sequence = ''A'',
            indel = 0\<rparr>,
          \<lparr>is_refskip = False, is_del = False, query_position = 0, query_sequence = ''T'',
            indel = 0\<rparr>]])
     4
     [''chr1'' @ [CHR 0x09] @ ''100'' @ [CHR 0x09] @ ''.'' @ [CHR 0x09] @ ''A'' @ [CHR 0x09] @ ''T''
        @ [CHR 0x09] @ ''.'' @ [CHR 0x09] @ ''PASS'' @ [CHR 0x09] @ ''DP=10\<newline>'']
   = Inr [(''chr1'', 100, ''A'', ''T'', Fin (log 10 (9990 / 11)), 2, 1)]
   \<and> detectability_results [(''chr1'', 100, ''A'', ''T'', Fin (log 10 (9990 / 11)), 2, 1)]
     = Inr (map spec_detectability [(''chr1'', 100, ''A'', ''T'', Fin (log 10 (9990 / 11)), 2, 1)])"
  (is "?g = Inr ?results \<and> _")
proof -
  have g: "?g = Inr ?results"
    by (simp add: gather_eval count_eval)
  have ne: "?results \<noteq> []" by simp
  from classification_of_scored_pairs [OF g ne] g show ?thesis by (rule conjI [rotated])
qed

text \<open>One record at a position without reads.\<close>

lemma zero_coverage_variant_example:
  "count_reads ''A'' [''T''] [] = Inr (0, [(''T'', 0)])
   \<and> score_variant (1 / 10000) (1 / 1000) (999 / 1000) ''chr1'' 100 ''A'' (0, [(''T'', 0)])
     = Inr [(''chr1'', 100, ''A'', ''T'', NegInf, 0, 0)]
   \<and> gather_results (1 / 10000) (1 / 1000) (999 / 1000) (\<lambda>chrom start stop. []) 4
       [''chr1'' @ [CHR 0x09] @ ''100'' @ [CHR 0x09] @ ''.'' @ [CHR 0x09] @ ''A'' @ [CHR 0x09] @ ''T''
          @ [CHR 0x09] @ ''.'' @ [CHR 0x09] @ ''PASS'' @ [CHR 0x09] @ ''DP=10\<newline>'']
     = Inr [(''chr1'', 100, ''A'', ''T'', NegInf, 0, 0)]
   \<and> (\<exists>out. report [(''chr1'', 100, ''A'', ''T'', NegInf, 0, 0)] = Inr out \<and> length out = 1
         \<and> out ! 0 = (''chr1'', 100, ''A'', ''T'', 0, ''Non-detectable'', 0, 0))"
  (is "?c = _ \<and> ?s = _ \<and> ?g = Inr ?results \<and> _")
proof -
  have c: "?c = Inr (0, [(''T'', 0)])"
    by (simp add: count_eval)
  have g: "?g = Inr ?results"
    by (simp add: gather_eval count_eval)
  note w = zero_coverage_variant [of "1 / 10000" "''A''" "[''T'']" "[]" 0 "[(''T'', 0)]"
      "1 / 1000" "999 / 1000" "''chr1''" 100 "\<lambda>chrom start stop. []" 4 _ ?results 0]
  from w c have s: "?s = Inr [(''chr1'', 100, ''A'', ''T'', NegInf, 0, 0)]"
    by simp
  from w g obtain out where "report ?results = Inr out" "length out = 1"
    "out ! 0 = (''chr1'', 100, ''A'', ''T'', 0, ''Non-detectable'', 0, 0)"
    by auto
  with c s g show ?thesis by blast
qed

text \<open>
  C8: the claim is that a variant with no informative read is written with coverage 0 for
  every alternate. Below, two records share position, reference and the alternate T: the
  first, A to T,G, has one informative read (a G), the second, A to T, has none. The loop
  of lines 225 to 233 takes the two counts of a row from the first result with the same
  chromosome, position, reference and alternate, so the row of the second record is
  written with the coverage 1 of the first.
\<close>

theorem zero_coverage_duplicate_record:
  "count_reads ''A'' (split_on (CHR '','') ''T'')
     [[\<lparr>is_refskip = False, is_del = False, query_position = 0, query_sequence = ''G'',
         indel = 0\<rparr>]]
   = Inr (0, [(''T'', 0)])
   \<and> gather_results (1 / 10000) (1 / 1000) (999 / 1000)
       (\<lambda>chrom start stop.
          [[\<lparr>is_refskip = False, is_del = False, query_position = 0, query_sequence = ''G'',
              indel = 0\<rparr>]])
       1
       [''chr1'' @ [CHR 0x09] @ ''100'' @ [CHR 0x09] @ ''.'' @ [CHR 0x09] @ ''A'' @ [CHR 0x09]
          @ ''T,G'' @ [CHR 0x09] @ ''.'' @ [CHR 0x09] @ ''PASS'' @ [CHR 0x09] @ ''DP=1\<newline>'',
        ''chr1'' @ [CHR 0x09] @ ''100'' @ [CHR 0x09] @ ''.'' @ [CHR 0x09] @ ''A'' @ [CHR 0x09]
          @ ''T'' @ [CHR 0x09] @ ''.'' @ [CHR 0x09] @ ''PASS'' @ [CHR 0x09] @ ''DP=1\<newline>'']
     = Inr [(''chr1'', 100, ''A'', ''T'', NegInf, 1, 0),
            (''chr1'', 100, ''A'', ''G'', Fin (log 10 999), 1, 1),
            (''chr1'', 100, ''A'', ''T'', NegInf, 0, 0)]
   \<and> report [(''chr1'', 100, ''A'', ''T'', NegInf, 1, 0),
             (''chr1'', 100, ''A'', ''G'', Fin (log 10 999), 1, 1),
             (''chr1'', 100, ''A'', ''T'', NegInf, 0, 0)]
     = Inr [(''chr1'', 100, ''A'', ''T'', 0, ''Non-detectable'', 1, 0),
            (''chr1'', 100, ''A'', ''G'', 0, ''Non-detectable'', 1, 1),
            (''chr1'', 100, ''A'', ''T'', 0, ''Non-detectable'', 1, 0)]"
proof (intro conjI)
  show "count_reads ''A'' (split_on (CHR '','') ''T'')
     [[\<lparr>is_refskip = False, is_del = False, query_position = 0, query_sequence = ''G'',
         indel = 0\<rparr>]]
   = Inr (0, [(''T'', 0)])"
    by (simp add: count_eval)
  show "gather_results (1 / 10000) (1 / 1000) (999 / 1000)
       (\<lambda>chrom start stop.
          [[\<lparr>is_refskip = False, is_del = False, query_position = 0, query_sequence = ''G'',
              indel = 0\<rparr>]])
       1
       [''chr1'' @ [CHR 0x09] @ ''100'' @ [CHR 0x09] @ ''.'' @ [CHR 0x09] @ ''A'' @ [CHR 0x09]
          @ ''T,G'' @ [CHR 0x09] @ ''.'' @ [CHR 0x09] @ ''PASS'' @ [CHR 0x09] @ ''DP=1\<newline>'',
        ''chr1'' @ [CHR 0x09] @ ''100'' @ [CHR 0x09] @ ''.'' @ [CHR 0x09] @ ''A'' @ [CHR 0x09]
          @ ''T'' @ [CHR 0x09] @ ''.'' @ [CHR 0x09] @ ''PASS'' @ [CHR 0x09] @ ''DP=1\<newline>'']
     = Inr [(''chr1'', 100, ''A'', ''T'', NegInf, 1, 0),
            (''chr1'', 100, ''A'', ''G'', Fin (log 10 999), 1, 1),
            (''chr1'', 100, ''A'', ''T'', NegInf, 0, 0)]"
    by (simp add: gather_eval count_eval)
  show "report [(''chr1'', 100, ''A'', ''T'', NegInf, 1, 0),
             (''chr1'', 100, ''A'', ''G'', Fin (log 10 999), 1, 1),
             (''chr1'', 100, ''A'', ''T'', NegInf, 0, 0)]
     = Inr [(''chr1'', 100, ''A'', ''T'', 0, ''Non-detectable'', 1, 0),
            (''chr1'', 100, ''A'', ''G'', 0, ''Non-detectable'', 1, 1),
            (''chr1'', 100, ''A'', ''T'', 0, ''Non-detectable'', 1, 0)]"
    by (simp add: report_def detectability_results_def detectability_of_def Let_def)
qed

end
